theory Spec2Isabelle
  imports Complex_Main "HOL-Library.Multiset" "HOL-Library.Sublist"
begin

section \<open>The Hub of vanilla/core.py: timer heap, ready deque and the pump\<close>

text \<open>
  The development embeds \<^verbatim>\<open>Scheduler\<close> and \<^verbatim>\<open>Hub\<close> of \<^verbatim>\<open>src/vanilla/core.py\<close>.
  Mutation is explicit state passing, every \<^verbatim>\<open>raise\<close> is a value of \<open>error\<close>, and the
  three things the code takes from outside are inputs of the model: the readings of
  \<^verbatim>\<open>time.time()\<close>, the outcomes of \<^verbatim>\<open>poll.poll\<close>, and what a green thread does to the
  hub between the moment the loop switches into it and the moment control comes back.
\<close>

subsection \<open>Values, tasks and errors\<close>

type_synonym fd = int
type_synonym mask = int
type_synonym event = "fd \<times> mask"

text \<open>
  A task is what sits in the first component of a ready entry or in the \<^verbatim>\<open>action\<close> field
  of a timer item: a greenlet, a plain callable that \<^verbatim>\<open>run_task\<close> wraps in a fresh
  greenlet, or the bound method \<^verbatim>\<open>self.dispatch_events\<close>. The number is the identity of
  the object.
\<close>

datatype task = Greenlet nat | Callable nat | Dispatch_events

text \<open>
  Python values that travel through \<^verbatim>\<open>switch\<close>. \<open>Timeout k t\<close> is the exception object
  \<^verbatim>\<open>vanilla.exception.Timeout('timeout: %s' % t)\<close>; exception objects compare by identity,
  which is the number \<open>k\<close>. \<open>Tuple\<close> is a Python tuple, \<open>Events\<close> the list returned by poll.
\<close>

datatype val =
  Obj int | TrueV | Timeout nat real | Halt | Stop | Events "event list" | Tuple "val list"

text \<open>
  \<open>Halt\<close> and \<open>Stop\<close> are exception objects of \<^verbatim>\<open>vanilla.exception\<close>. An exception that
  leaves a function is an \<open>error\<close>; \<open>Thrown v\<close> is \<^verbatim>\<open>raise v\<close> for an exception object.
\<close>

datatype error =
  IndexError | ValueError | KeyError | AssertionError | Exception string | Thrown val

text \<open>
  The result of code that may also not come back: \<open>Starved\<close> says that the loop was
  still running when the bound on its iterations, or the list of poll outcomes, was
  used up.
\<close>

datatype 'a outcome = Done 'a | Raised error | Starved

text \<open>\<^verbatim>\<open>isinstance(resume, vanilla.exception.Timeout)\<close>\<close>

fun is_Timeout :: "val \<Rightarrow> bool" where
  "is_Timeout (Timeout k t) = True"
| "is_Timeout v = False"

subsection \<open>Scheduler: the timer heap with lazy removal\<close>

text \<open>\<^verbatim>\<open>Item = collections.namedtuple('Item', ['due', 'action', 'args'])\<close>\<close>

datatype item = Item (due: real) (action: task) (args: "val list")

text \<open>
  \<^verbatim>\<open>self.count\<close>, \<^verbatim>\<open>self.queue\<close>, \<^verbatim>\<open>self.removed\<close>. The list that \<^verbatim>\<open>heapq\<close> maintains is
  represented by its items in the order in which \<^verbatim>\<open>heappop\<close> would deliver them: ascending
  \<^verbatim>\<open>due\<close>, so that \<^verbatim>\<open>queue[0]\<close> is the head. Items with equal \<^verbatim>\<open>due\<close> are compared by Python on
  the identity of their action, which no value determines; here the later push comes
  out first.
\<close>

record scheduler =
  count :: int
  queue :: "item list"
  removed :: "item \<rightharpoonup> bool"

definition Scheduler_init :: scheduler where
  "Scheduler_init = \<lparr>count = 0, queue = [], removed = Map.empty\<rparr>"

definition heappush :: "item list \<Rightarrow> item \<Rightarrow> item list" where
  "heappush q x = insort_key due x q"

text \<open>
  \<^verbatim>\<open>add(delay, action, *args)\<close>; \<open>now\<close> is what \<^verbatim>\<open>time.time()\<close> returns in this call. The
  clock is in seconds, the delay in milliseconds.
\<close>

definition add :: "scheduler \<Rightarrow> real \<Rightarrow> real \<Rightarrow> task \<Rightarrow> val list \<Rightarrow> item \<times> scheduler" where
  "add s now delay act a =
     (let it = Item (now + delay / 1000) act a
      in (it, s\<lparr>queue := heappush (queue s) it, count := count s + 1\<rparr>))"

text \<open>\<^verbatim>\<open>__len__\<close>\<close>

definition len :: "scheduler \<Rightarrow> int" where
  "len s = count s"

text \<open>
  The truth value of a scheduler, as in \<^verbatim>\<open>if self.scheduled:\<close>. The class has no
  \<^verbatim>\<open>__nonzero__\<close>, so Python calls \<^verbatim>\<open>__len__\<close> and raises ValueError on a negative length.
\<close>

definition truth :: "scheduler \<Rightarrow> error + bool" where
  "truth s = (if len s < 0 then Inl ValueError else Inr (len s \<noteq> 0))"

definition remove :: "scheduler \<Rightarrow> item \<Rightarrow> scheduler" where
  "remove s it = s\<lparr>removed := (removed s)(it \<mapsto> True), count := count s - 1\<rparr>"

text \<open>
  The loop of \<^verbatim>\<open>prune\<close> on the queue and the removed dictionary. \<^verbatim>\<open>self.queue[0]\<close> on an
  empty list raises IndexError; what was popped before stays popped.
\<close>

fun prune_loop :: "item list \<Rightarrow> (item \<rightharpoonup> bool) \<Rightarrow> item list \<times> (item \<rightharpoonup> bool) \<times> error option" where
  "prune_loop [] rm = ([], rm, Some IndexError)"
| "prune_loop (x # q) rm =
     (if rm x = None then (x # q, rm, None) else prune_loop q (rm(x := None)))"

definition prune :: "scheduler \<Rightarrow> scheduler \<times> error option" where
  "prune s = (case prune_loop (queue s) (removed s) of
                (q, rm, e) \<Rightarrow> (s\<lparr>queue := q, removed := rm\<rparr>, e))"

text \<open>\<^verbatim>\<open>timeout()\<close>, with the reading of the clock as argument.\<close>

definition timeout :: "scheduler \<Rightarrow> real \<Rightarrow> scheduler \<times> (error + real)" where
  "timeout s now =
     (case prune s of
        (s1, Some e) \<Rightarrow> (s1, Inl e)
      | (s1, None) \<Rightarrow>
          (case queue s1 of
             [] \<Rightarrow> (s1, Inl IndexError)
           | x # q \<Rightarrow> (s1, Inr (due x - now))))"

text \<open>\<^verbatim>\<open>pop()\<close>: prune, \<^verbatim>\<open>heappop\<close>, decrement, return \<^verbatim>\<open>(item.action, item.args)\<close>.\<close>

definition pop :: "scheduler \<Rightarrow> scheduler \<times> (error + task \<times> val list)" where
  "pop s =
     (case prune s of
        (s1, Some e) \<Rightarrow> (s1, Inl e)
      | (s1, None) \<Rightarrow>
          (case queue s1 of
             [] \<Rightarrow> (s1, Inl IndexError)
           | x # q \<Rightarrow> (s1\<lparr>queue := q, count := count s1 - 1\<rparr>, Inr (action x, args x))))"

text \<open>The item that \<^verbatim>\<open>pop\<close> takes off the heap, when it takes one.\<close>

definition popped :: "scheduler \<Rightarrow> item option" where
  "popped s =
     (case prune s of
        (s1, Some e) \<Rightarrow> None
      | (s1, None) \<Rightarrow> (case queue s1 of [] \<Rightarrow> None | x # q \<Rightarrow> Some x))"

subsection \<open>Sequences of scheduler operations\<close>

datatype op = Add real real task "val list" | Remove item | Pop

fun apply_op :: "scheduler \<Rightarrow> op \<Rightarrow> scheduler" where
  "apply_op s (Add now delay act a) = snd (add s now delay act a)"
| "apply_op s (Remove it) = remove s it"
| "apply_op s Pop = fst (pop s)"

text \<open>
  The live items by the history of the operations: an item is live from the \<^verbatim>\<open>add\<close> that
  made it until it is removed or popped.
\<close>

fun live_op :: "scheduler \<Rightarrow> item list \<Rightarrow> op \<Rightarrow> item list" where
  "live_op s L (Add now delay act a) = L @ [fst (add s now delay act a)]"
| "live_op s L (Remove it) = remove1 it L"
| "live_op s L Pop = (case popped s of None \<Rightarrow> L | Some it \<Rightarrow> remove1 it L)"

fun run_ops :: "scheduler \<Rightarrow> item list \<Rightarrow> op list \<Rightarrow> scheduler \<times> item list" where
  "run_ops s L [] = (s, L)"
| "run_ops s L (x # xs) = run_ops (apply_op s x) (live_op s L x) xs"

text \<open>
  A sequence is orderly when every \<^verbatim>\<open>remove\<close> is given an item that is live at that moment
  and no \<^verbatim>\<open>add\<close> makes an item equal to one that is still in the heap.
\<close>

fun orderly :: "scheduler \<Rightarrow> item list \<Rightarrow> op list \<Rightarrow> bool" where
  "orderly s L [] = True"
| "orderly s L (x # xs) =
     ((case x of
         Add now delay act a \<Rightarrow> fst (add s now delay act a) \<notin> set (queue s)
       | Remove it \<Rightarrow> it \<in> set L
       | Pop \<Rightarrow> True)
      \<and> orderly (apply_op s x) (live_op s L x) xs)"

text \<open>The link between heap, removed dictionary, count and the live items.\<close>

definition agrees :: "scheduler \<Rightarrow> item list \<Rightarrow> bool" where
  "agrees s L \<longleftrightarrow>
     distinct (queue s) \<and> dom (removed s) \<subseteq> set (queue s)
     \<and> mset L = mset (filter (\<lambda>x. removed s x = None) (queue s))
     \<and> count s = int (length L)"

text \<open>
  The live items in the order of the heap, and the consistency of a scheduler: no item
  twice in the heap, only items of the heap marked as removed, the count equal to the
  number of live items, and the heap in the order of \<^verbatim>\<open>due\<close>.
\<close>

definition live_items :: "scheduler \<Rightarrow> item list" where
  "live_items s = filter (\<lambda>x. removed s x = None) (queue s)"

definition sound :: "scheduler \<Rightarrow> bool" where
  "sound s \<longleftrightarrow> agrees s (live_items s) \<and> sorted (map due (queue s))"

text \<open>
  The items that the \<^verbatim>\<open>pop\<close> calls of a sequence take off the heap, the item an operation
  pushes, and what it means for an item to be cancelled: wherever it still is in the
  heap it is marked as removed, and it is there at most once.
\<close>

fun popped_items :: "scheduler \<Rightarrow> op list \<Rightarrow> item list" where
  "popped_items s [] = []"
| "popped_items s (x # xs) =
     (case x of
        Pop \<Rightarrow> (case popped s of None \<Rightarrow> [] | Some it \<Rightarrow> [it])
      | _ \<Rightarrow> [])
     @ popped_items (apply_op s x) xs"

fun makes :: "op \<Rightarrow> item option" where
  "makes (Add now delay act a) = Some (fst (add Scheduler_init now delay act a))"
| "makes (Remove it) = None"
| "makes Pop = None"

definition cancelled :: "item \<Rightarrow> scheduler \<Rightarrow> bool" where
  "cancelled it s \<longleftrightarrow>
     (it \<in> set (queue s) \<longrightarrow> removed s it \<noteq> None) \<and> count_list (queue s) it \<le> 1"

subsection \<open>The Hub\<close>

type_synonym sender = nat

text \<open>
  Modelled from the spec: \<^verbatim>\<open>vanilla.message\<close> is not among the sources. The state of the
  pipe behind a Sender is one of idle, sender-waiting(task, value), recver-waiting(task),
  closed.
\<close>

datatype pipe = Idle | Sender_waiting task val | Recver_waiting task | Closed

text \<open>
  One call of \<^verbatim>\<open>self.poll.poll(timeout=timeout)\<close> either raises IOError (a signal
  interrupted it) or returns a list of events.
\<close>

datatype poll_outcome = Interrupted | Returned "event list"

text \<open>
  The attributes of a Hub. \<^verbatim>\<open>registered\<close> is a dictionary of dictionaries, kept as
  association lists in the order in which Python iterates over them. \<open>pipes\<close> is the state
  of the pipe of every Sender; \<open>stopped_value\<close> and \<open>stopped_recvers\<close> are the State latch
  \<^verbatim>\<open>self.stopped\<close>. The last three fields are the world outside: \<open>clock h i\<close> is what the
  \<open>i\<close>-th call of \<^verbatim>\<open>time.time()\<close> returns, \<open>reads\<close> counts the calls made so far, and
  \<open>polls\<close> lists the outcomes of the calls of \<^verbatim>\<open>poll.poll\<close> still to come.
\<close>

record hub =
  ready :: "(task \<times> val list) list"
  scheduled :: scheduler
  registered :: "(fd \<times> (mask \<times> sender) list) list"
  loop :: task
  pipes :: "sender \<Rightarrow> pipe"
  stopped_value :: "val option"
  stopped_recvers :: "task list"
  clock :: "nat \<Rightarrow> real"
  reads :: nat
  polls :: "poll_outcome list"

text \<open>
  \<^verbatim>\<open>Hub.__init__\<close>: the hub whose loop greenlet is \<open>lp\<close>, in a world whose clock and poll
  behave as \<open>clk\<close> and \<open>ps\<close> say.
\<close>

definition Hub_init :: "task \<Rightarrow> (nat \<Rightarrow> real) \<Rightarrow> poll_outcome list \<Rightarrow> hub" where
  "Hub_init lp clk ps =
     \<lparr>ready = [], scheduled = Scheduler_init, registered = [], loop = lp,
      pipes = (\<lambda>s. Idle), stopped_value = None, stopped_recvers = [],
      clock = clk, reads = 0, polls = ps\<rparr>"

text \<open>\<^verbatim>\<open>time.time()\<close>\<close>

definition time_time :: "hub \<Rightarrow> real \<times> hub" where
  "time_time h = (clock h (reads h), h\<lparr>reads := Suc (reads h)\<rparr>)"

text \<open>\<^verbatim>\<open>self.scheduled.add(delay, action, *args)\<close> on the hub.\<close>

definition scheduled_add :: "hub \<Rightarrow> real \<Rightarrow> task \<Rightarrow> val list \<Rightarrow> item \<times> hub" where
  "scheduled_add h delay act a =
     (case time_time h of
        (now, h1) \<Rightarrow>
          (case add (scheduled h1) now delay act a of
             (it, s) \<Rightarrow> (it, h1\<lparr>scheduled := s\<rparr>)))"

text \<open>\<^verbatim>\<open>resume(co, *a)\<close>\<close>

definition resume :: "hub \<Rightarrow> task \<Rightarrow> val list \<Rightarrow> hub" where
  "resume h co a = h\<lparr>ready := ready h @ [(co, a)]\<rparr>"

text \<open>
  \<^verbatim>\<open>spawn(f, *a)\<close> up to the point where the caller \<open>cur\<close> switches to the loop: the append
  of \<^verbatim>\<open>(f, a)\<close> and, in \<^verbatim>\<open>cont\<close>, the resume of the caller. When the caller is the loop
  itself, as in \<^verbatim>\<open>pump\<close>, the switch that follows goes nowhere.
\<close>

definition spawn :: "hub \<Rightarrow> task \<Rightarrow> task \<Rightarrow> val list \<Rightarrow> hub" where
  "spawn h cur f a = resume (h\<lparr>ready := ready h @ [(f, a)]\<rparr>) cur []"

text \<open>
  What \<^verbatim>\<open>self.loop.switch()\<close> returns in a task that the loop resumes by
  \<^verbatim>\<open>task.switch(*a)\<close>: the argument itself when there is exactly one, the tuple otherwise.
\<close>

definition switch_value :: "val list \<Rightarrow> val" where
  "switch_value a = (case a of [v] \<Rightarrow> v | _ \<Rightarrow> Tuple a)"

text \<open>
  \<^verbatim>\<open>pause(timeout)\<close> in two halves, since other tasks run in between. The first half runs
  up to \<^verbatim>\<open>self.loop.switch()\<close>: \<open>cur\<close> is \<^verbatim>\<open>getcurrent()\<close>, \<open>k\<close> the identity of the Timeout
  object that is made. The second half starts when the switch returns \<open>resume_v\<close>; \<open>it\<close> is
  the local \<^verbatim>\<open>item\<close>, which is bound only when the timeout is greater than -1.
\<close>

definition pause_suspend :: "hub \<Rightarrow> task \<Rightarrow> nat \<Rightarrow> real \<Rightarrow> hub \<times> (error + item option)" where
  "pause_suspend h cur k tmo =
     (case (if tmo > - 1
            then (case scheduled_add h tmo cur [Timeout k tmo] of (it, g) \<Rightarrow> (Some it, g))
            else (None, h)) of
        (it, h1) \<Rightarrow>
          if cur = loop h1 then (h1, Inl AssertionError) else (h1, Inr it))"

definition pause_resume :: "hub \<Rightarrow> real \<Rightarrow> item \<Rightarrow> val \<Rightarrow> hub \<times> (error + val)" where
  "pause_resume h tmo it resume_v =
     (if tmo > - 1 \<and> \<not> is_Timeout resume_v
      then (h\<lparr>scheduled := remove (scheduled h) it\<rparr>, Inr resume_v)
      else (h, Inr resume_v))"

text \<open>\<^verbatim>\<open>sleep(ms)\<close> up to the switch to the loop.\<close>

definition sleep :: "hub \<Rightarrow> task \<Rightarrow> real \<Rightarrow> hub" where
  "sleep h cur ms = snd (scheduled_add h ms cur [])"

text \<open>
  Modelled from the spec: the Sender of \<^verbatim>\<open>vanilla.message\<close>. \<^verbatim>\<open>ready\<close>: is a counterparty
  parked?
\<close>

definition Sender_ready :: "hub \<Rightarrow> sender \<Rightarrow> bool" where
  "Sender_ready h s = (case pipes h s of Recver_waiting t \<Rightarrow> True | _ \<Rightarrow> False)"

text \<open>
  Modelled from the spec: \<^verbatim>\<open>send(v)\<close>: if a recver is parked, resume it with v and return.
  Otherwise the call does not return at once (it fails on a closed pipe or parks the
  caller), which is \<open>None\<close>.
\<close>

definition Sender_send :: "hub \<Rightarrow> sender \<Rightarrow> val \<Rightarrow> hub option" where
  "Sender_send h s v =
     (case pipes h s of
        Recver_waiting t \<Rightarrow> Some (resume (h\<lparr>pipes := (pipes h)(s := Idle)\<rparr>) t [v])
      | _ \<Rightarrow> None)"

text \<open>
  Modelled from the spec: \<^verbatim>\<open>close()\<close>: flip to closed; any parked counterparty is resumed
  with the appropriate Halt subtype.
\<close>

definition Sender_close :: "hub \<Rightarrow> sender \<Rightarrow> hub" where
  "Sender_close h s =
     (case pipes h s of
        Recver_waiting t \<Rightarrow> resume (h\<lparr>pipes := (pipes h)(s := Closed)\<rparr>) t [Halt]
      | _ \<Rightarrow> h\<lparr>pipes := (pipes h)(s := Closed)\<rparr>)"

text \<open>
  Modelled from the spec: \<^verbatim>\<open>Sender.stop()\<close> is not among the sources; the spec says of
  \<^verbatim>\<open>Hub.stop\<close> that it closes all fd Senders.
\<close>

definition Sender_stop :: "hub \<Rightarrow> sender \<Rightarrow> hub" where
  "Sender_stop h s = Sender_close h s"

text \<open>
  Modelled from the spec: the State latch. \<^verbatim>\<open>send(v)\<close> sets the current value and wakes all
  parked recvers with v; the value persists.
\<close>

definition State_send :: "hub \<Rightarrow> val \<Rightarrow> hub" where
  "State_send h v =
     (fold (\<lambda>t g. resume g t [v]) (stopped_recvers h) h)
       \<lparr>stopped_value := Some v, stopped_recvers := []\<rparr>"

text \<open>
  \<^verbatim>\<open>dispatch_events(events)\<close>. \<open>pollerr\<close> is the constant \<^verbatim>\<open>vanilla.poll.POLLERR\<close>, which is
  not among the sources. \<^verbatim>\<open>masks[mask]\<close> raises KeyError when the mask has no Sender; what
  was done for the events before stays done.
\<close>

datatype dispatched = Dispatched hub | Aborted hub error | Stuck hub

fun dispatch_events :: "mask \<Rightarrow> hub \<Rightarrow> event list \<Rightarrow> dispatched" where
  "dispatch_events pollerr h [] = Dispatched h"
| "dispatch_events pollerr h ((fd, msk) # events) =
     (case map_of (registered h) fd of
        None \<Rightarrow> dispatch_events pollerr h events
      | Some masks \<Rightarrow>
          if msk = pollerr
          then dispatch_events pollerr (fold (\<lambda>sender g. Sender_close g sender) (map snd masks) h) events
          else (case map_of masks msk of
                  None \<Rightarrow> Aborted h KeyError
                | Some sender \<Rightarrow>
                    if Sender_ready h sender
                    then (case Sender_send h sender TrueV of
                            None \<Rightarrow> Stuck h
                          | Some g \<Rightarrow> dispatch_events pollerr g events)
                    else dispatch_events pollerr h events))"

definition hub_of :: "dispatched \<Rightarrow> hub" where
  "hub_of d = (case d of Dispatched h \<Rightarrow> h | Aborted h e \<Rightarrow> h | Stuck h \<Rightarrow> h)"

text \<open>
  What the green threads do is an input: \<open>switch E task a h\<close> is the hub at the moment
  control is back in the loop after \<^verbatim>\<open>task.switch(*a)\<close>, an exception that leaks being
  logged by \<^verbatim>\<open>run_task\<close>. \<open>POLLERR\<close> is the constant of \<^verbatim>\<open>vanilla.poll\<close>.
\<close>

record env =
  switch :: "task \<Rightarrow> val list \<Rightarrow> hub \<Rightarrow> hub"
  POLLERR :: mask

text \<open>
  \<^verbatim>\<open>run_task(task, *a)\<close>, called by the loop. A switch to the loop itself, which \<^verbatim>\<open>cont\<close>
  puts into the deque when the loop spawns the dispatcher, returns at once. The
  dispatcher is the one task whose code is in the file; called with anything but one
  list of events it raises at once, which \<^verbatim>\<open>run_task\<close> logs.
\<close>

definition run_task :: "env \<Rightarrow> hub \<Rightarrow> task \<Rightarrow> val list \<Rightarrow> hub" where
  "run_task E h task a =
     (if task = loop h then h
      else (case task of
              Dispatch_events \<Rightarrow>
                (case a of [Events events] \<Rightarrow> hub_of (dispatch_events (POLLERR E) h events) | _ \<Rightarrow> h)
            | _ \<Rightarrow> switch E task a h))"

text \<open>The test in the first line of \<^verbatim>\<open>pump\<close>, evaluated from left to right.\<close>

definition nothing_to_do :: "hub \<Rightarrow> error + bool" where
  "nothing_to_do h =
     (if ready h \<noteq> [] then Inr False
      else (case truth (scheduled h) of
              Inl e \<Rightarrow> Inl e
            | Inr True \<Rightarrow> Inr False
            | Inr False \<Rightarrow> Inr (registered h = [])))"

text \<open>
  The loop over the local deque \<^verbatim>\<open>ready\<close>; the second component lists the entries handed
  to \<^verbatim>\<open>run_task\<close>, in the order of the calls.
\<close>

fun drain :: "env \<Rightarrow> (task \<times> val list) list \<Rightarrow> hub \<Rightarrow> hub \<times> (task \<times> val list) list" where
  "drain E [] h = (h, [])"
| "drain E ((task, a) # r) h =
     (case drain E r (run_task E h task a) of (h', rs) \<Rightarrow> (h', (task, a) # rs))"

text \<open>\<^verbatim>\<open>self.scheduled.timeout()\<close> on the hub: prune, then read the clock.\<close>

definition scheduled_timeout :: "hub \<Rightarrow> error + real \<times> hub" where
  "scheduled_timeout h =
     (case timeout (scheduled h) (clock h (reads h)) of
        (s1, Inl e) \<Rightarrow> Inl e
      | (s1, Inr d) \<Rightarrow> Inr (d, h\<lparr>scheduled := s1, reads := Suc (reads h)\<rparr>))"

text \<open>Lines 416 to 420: the timeout for poll.\<close>

definition compute_timeout :: "hub \<Rightarrow> error + real \<times> hub" where
  "compute_timeout h =
     (case truth (scheduled h) of
        Inl e \<Rightarrow> Inl e
      | Inr False \<Rightarrow> Inr (- 1, h)
      | Inr True \<Rightarrow>
          (case scheduled_timeout h of
             Inl e \<Rightarrow> Inl e
           | Inr (d, h1) \<Rightarrow> Inr (min d 0, h1)))"

text \<open>The loop that repeats poll after an IOError.\<close>

fun poll_loop :: "poll_outcome list \<Rightarrow> (event list \<times> poll_outcome list) option" where
  "poll_loop [] = None"
| "poll_loop (Interrupted # ps) = poll_loop ps"
| "poll_loop (Returned events # ps) = Some (events, ps)"

text \<open>
  What one run of \<^verbatim>\<open>pump\<close> did: the ready entries it ran, the timeout it passed to poll
  when it polled, the duration it passed to \<^verbatim>\<open>time.sleep\<close> when it slept, and the timer
  items it fired, each with the value of \<^verbatim>\<open>timeout()\<close> (due minus now) that let it fire.
\<close>

record report =
  ran_ready :: "(task \<times> val list) list"
  polled :: "real option"
  slept :: "real option"
  fired :: "(real \<times> task \<times> val list) list"

definition no_report :: report where
  "no_report = \<lparr>ran_ready = [], polled = None, slept = None, fired = []\<rparr>"

text \<open>
  Lines 422 to 433: poll when there are registrations, else sleep when the timeout is
  positive. The result is the events (none when poll was not called), the timeout
  passed to poll, the duration slept, and the hub.
\<close>

definition wait :: "real \<Rightarrow> hub \<Rightarrow> (event list \<times> real option \<times> real option \<times> hub) outcome" where
  "wait tmo h =
     (if registered h \<noteq> []
      then (case poll_loop (polls h) of
              None \<Rightarrow> Starved
            | Some (events, ps) \<Rightarrow> Done (events, Some tmo, None, h\<lparr>polls := ps\<rparr>))
      else if tmo > 0 then Done ([], None, Some tmo, h)
      else Done ([], None, None, h))"

text \<open>
  Lines 435 to 437: the loop that fires the timers. It tests its condition at most \<open>n\<close>
  times.
\<close>

fun fire :: "env \<Rightarrow> nat \<Rightarrow> hub \<Rightarrow> (hub \<times> (real \<times> task \<times> val list) list) outcome" where
  "fire E 0 h = Starved"
| "fire E (Suc n) h =
     (case truth (scheduled h) of
        Inl e \<Rightarrow> Raised e
      | Inr False \<Rightarrow> Done (h, [])
      | Inr True \<Rightarrow>
          (case scheduled_timeout h of
             Inl e \<Rightarrow> Raised e
           | Inr (d, h1) \<Rightarrow>
               if d < 0
               then (case pop (scheduled h1) of
                       (s2, Inl e) \<Rightarrow> Raised e
                     | (s2, Inr (task, a)) \<Rightarrow>
                         (case fire E n (run_task E (h1\<lparr>scheduled := s2\<rparr>) task a) of
                            Done (h', fs) \<Rightarrow> Done (h', (d, task, a) # fs)
                          | Raised e \<Rightarrow> Raised e
                          | Starved \<Rightarrow> Starved))
               else Done (h1, [])))"

text \<open>\<^verbatim>\<open>pump()\<close>; \<open>n\<close> bounds the loop that fires the timers.\<close>

definition pump :: "env \<Rightarrow> nat \<Rightarrow> hub \<Rightarrow> (bool \<times> hub \<times> report) outcome" where
  "pump E n h =
     (case nothing_to_do h of
        Inl e \<Rightarrow> Raised e
      | Inr True \<Rightarrow> Done (False, h, no_report)
      | Inr False \<Rightarrow>
          (case drain E (ready h) (h\<lparr>ready := []\<rparr>) of
             (h1, rs) \<Rightarrow>
               (case compute_timeout h1 of
                  Inl e \<Rightarrow> Raised e
                | Inr (tmo, h2) \<Rightarrow>
                    (case wait tmo h2 of
                       Raised e \<Rightarrow> Raised e
                     | Starved \<Rightarrow> Starved
                     | Done (events, pd, sl, h3) \<Rightarrow>
                         (case fire E n h3 of
                            Raised e \<Rightarrow> Raised e
                          | Starved \<Rightarrow> Starved
                          | Done (h4, fs) \<Rightarrow>
                              Done (True,
                                    (if events \<noteq> []
                                     then spawn h4 (loop h4) Dispatch_events [Events events]
                                     else h4),
                                    \<lparr>ran_ready = rs, polled = pd, slept = sl, fired = fs\<rparr>))))))"

text \<open>
  \<^verbatim>\<open>main()\<close>: pump until it returns False, then set the stopped latch. \<open>m\<close> bounds the
  number of runs of pump, \<open>n\<close> the timer loop in each.
\<close>

fun main :: "env \<Rightarrow> nat \<Rightarrow> nat \<Rightarrow> hub \<Rightarrow> hub outcome" where
  "main E n 0 h = Starved"
| "main E n (Suc m) h =
     (case pump E n h of
        Raised e \<Rightarrow> Raised e
      | Starved \<Rightarrow> Starved
      | Done (go, h', r) \<Rightarrow> if go then main E n m h' else Done (State_send h' TrueV))"

text \<open>\<^verbatim>\<open>throw_to(target, *a)\<close>: the first statement raises.\<close>

definition throw_to :: "hub \<Rightarrow> task \<Rightarrow> val list \<Rightarrow> hub \<times> (error + val)" where
  "throw_to h target a = (h, Inl (Exception ''REMOVE throw_to''))"

text \<open>The two loops of \<^verbatim>\<open>stop\<close>: over the registered Senders, and over the timer heap.\<close>

definition stop_senders :: "hub \<Rightarrow> hub" where
  "stop_senders h =
     fold (\<lambda>(fd, masks) g. fold (\<lambda>(msk, sender) g'. Sender_stop g' sender) masks g)
       (registered h) h"

function stop_loop :: "hub \<Rightarrow> hub \<times> error option" where
  "stop_loop h =
     (case truth (scheduled h) of
        Inl e \<Rightarrow> (h, Some e)
      | Inr False \<Rightarrow> (h, None)
      | Inr True \<Rightarrow>
          (case pop (scheduled h) of
             (s1, Inl e) \<Rightarrow> (h\<lparr>scheduled := s1\<rparr>, Some e)
           | (s1, Inr (task, a)) \<Rightarrow>
               (case throw_to (h\<lparr>scheduled := s1\<rparr>) task [Stop] of
                  (h1, Inl e) \<Rightarrow> (h1, Some e)
                | (h1, Inr v) \<Rightarrow> stop_loop h1)))"
  by pat_completeness auto
termination
  by (relation "{}") (auto simp: throw_to_def)

text \<open>
  \<^verbatim>\<open>stop()\<close> in two halves: up to the switch inside \<^verbatim>\<open>self.sleep(1)\<close>, and from the moment
  the caller \<open>cur\<close> is resumed. The second half ends with an exception, or returns (the
  latch was set, or Halt was caught), or parks the caller in \<^verbatim>\<open>self.stopped.recv()\<close>.
\<close>

datatype stop_result = Stop_raises error | Stop_returns | Stop_parks

definition stop_suspend :: "hub \<Rightarrow> task \<Rightarrow> hub" where
  "stop_suspend h cur = sleep h cur 1"

definition stop_resume :: "hub \<Rightarrow> task \<Rightarrow> hub \<times> stop_result" where
  "stop_resume h cur =
     (case stop_loop (stop_senders h) of
        (h1, Some e) \<Rightarrow> (h1, Stop_raises e)
      | (h1, None) \<Rightarrow>
          (case stopped_value h1 of
             Some v \<Rightarrow> (h1, Stop_returns)
           | None \<Rightarrow> (h1\<lparr>stopped_recvers := stopped_recvers h1 @ [cur]\<rparr>, Stop_parks)))"

text \<open>Readers of an outcome, and two environments used in the examples.\<close>

definition report_of :: "(bool \<times> hub \<times> report) outcome \<Rightarrow> report option" where
  "report_of x = (case x of Done (go, h, r) \<Rightarrow> Some r | _ \<Rightarrow> None)"

definition returned :: "(bool \<times> hub \<times> report) outcome \<Rightarrow> bool option" where
  "returned x = (case x of Done (go, h, r) \<Rightarrow> Some go | _ \<Rightarrow> None)"

definition hub_after :: "(bool \<times> hub \<times> report) outcome \<Rightarrow> hub option" where
  "hub_after x = (case x of Done (go, h, r) \<Rightarrow> Some h | _ \<Rightarrow> None)"


text \<open>Tasks that give control back without touching the hub.\<close>

definition quiet :: env where
  "quiet = \<lparr>switch = (\<lambda>task a h. h), POLLERR = 8\<rparr>"

text \<open>Tasks that ready themselves again, as a producer loop does with \<^verbatim>\<open>cont\<close>.\<close>

definition eager :: env where
  "eager = \<lparr>switch = (\<lambda>task a h. resume h task a), POLLERR = 8\<rparr>"

text \<open>
  The timeout of step 3 in the words of the spec: \<open>min (due_top - now) 0\<close> when the
  timer heap has a live item, where \<open>due_top\<close> is the earliest \<^verbatim>\<open>due\<close> of a live item and
  \<open>now\<close> the next reading of the clock, and -1 otherwise.
\<close>

definition spec_timeout :: "hub \<Rightarrow> real" where
  "spec_timeout h =
     (if live_items (scheduled h) = [] then - 1
      else min (Min (due ` set (live_items (scheduled h))) - clock h (reads h)) 0)"

text \<open>
  Modelled from the spec: \<^verbatim>\<open>vanilla.poll\<close> is not among the sources. The spec gives
  \<^verbatim>\<open>poll(timeout: seconds, -1 = block)\<close>.
\<close>

definition poll_blocks :: "real \<Rightarrow> bool" where
  "poll_blocks tmo \<longleftrightarrow> tmo = - 1"

text \<open>
  Hubs used in the examples. The first is a new hub under a clock that reads 0, 1, 2,
  and so on.
\<close>

definition ticking_hub :: hub where
  "ticking_hub = Hub_init (Greenlet 0) (\<lambda>i. real i) []"

definition two_ready :: hub where
  "two_ready = resume (resume (Hub_init (Greenlet 0) (\<lambda>i. 0) []) (Greenlet 1) []) (Greenlet 2) []"

definition parked_hub :: hub where
  "parked_hub = (snd (scheduled_add (Hub_init (Greenlet 0) (\<lambda>i. 0) []) 50 (Greenlet 2) []))
       \<lparr>registered := [(3, [(1, 0)])], pipes := (\<lambda>s. Recver_waiting (Greenlet 3))\<rparr>"

text \<open>
  A hub with one registered fd and one timer item that is due at 0, under a clock that
  reads 0, 1, 2, ...; and a hub with nothing but one timer item due at 5, under a clock
  that stays at 1.
\<close>

definition overdue_hub :: hub where
  "overdue_hub = (snd (scheduled_add (Hub_init (Greenlet 0) (\<lambda>i. real i) [Returned []]) 0 (Greenlet 1) []))
       \<lparr>registered := [(3, [(1, 0)])]\<rparr>"





text \<open>
  The events that poll hands over are expected to be about what was registered: on a
  registered fd, the mask of an event is POLLERR or a mask that has a Sender.
\<close>

definition expected :: "mask \<Rightarrow> hub \<Rightarrow> event list \<Rightarrow> bool" where
  "expected pollerr h events \<longleftrightarrow>
     (\<forall>(fd, msk) \<in> set events.
        case map_of (registered h) fd of
          None \<Rightarrow> True
        | Some masks \<Rightarrow> msk = pollerr \<or> map_of masks msk \<noteq> None)"

text \<open>
  A hub in which a task has paused with a timeout of 20 ms; and a hub with fd 3
  registered for the masks 1 and 4, a recver parked on the Sender of mask 1 only.
\<close>

definition paused_hub :: hub where
  "paused_hub = fst (pause_suspend (Hub_init (Greenlet 0) (\<lambda>i. 0) []) (Greenlet 1) 7 20)"

definition polling_hub :: hub where
  "polling_hub = (Hub_init (Greenlet 0) (\<lambda>i. 0) [])
       \<lparr>registered := [(3, [(1, 0), (4, 1)])],
        pipes := (\<lambda>s. if s = 0 then Recver_waiting (Greenlet 5) else Idle)\<rparr>"

section \<open>Facts about the scheduler\<close>

subsection \<open>Facts about pruning\<close>

lemma prune_loop_suffix:
  "prune_loop q rm = (q', rm', e) \<Longrightarrow> \<exists>p. q = p @ q'"
proof (induction q arbitrary: rm)
  case Nil
  then show ?case by simp
next
  case (Cons x q)
  show ?case
  proof (cases "rm x = None")
    case True
    with Cons.prems show ?thesis by simp
  next
    case False
    with Cons.prems have "prune_loop q (rm(x := None)) = (q', rm', e)" by simp
    from Cons.IH [OF this] obtain p where "q = p @ q'" by blast
    then have "x # q = (x # p) @ q'" by simp
    then show ?thesis by blast
  qed
qed

lemma prune_loop_keeps:
  "prune_loop q rm = (q', rm', e) \<Longrightarrow> distinct q \<Longrightarrow> dom rm \<subseteq> set q \<Longrightarrow>
     distinct q' \<and> dom rm' \<subseteq> set q'
     \<and> filter (\<lambda>x. rm' x = None) q' = filter (\<lambda>x. rm x = None) q"
proof (induction q arbitrary: rm)
  case Nil
  then show ?case by auto
next
  case (Cons x q)
  show ?case
  proof (cases "rm x = None")
    case True
    with Cons.prems show ?thesis by auto
  next
    case False
    with Cons.prems have run: "prune_loop q (rm(x := None)) = (q', rm', e)" by simp
    from Cons.prems have d: "distinct q" and nx: "x \<notin> set q" by auto
    from Cons.prems have sub: "dom (rm(x := None)) \<subseteq> set q" by auto
    from Cons.IH [OF run d sub]
    have ih: "distinct q'" "dom rm' \<subseteq> set q'"
      "filter (\<lambda>y. rm' y = None) q' = filter (\<lambda>y. (rm(x := None)) y = None) q"
      by auto
    have "filter (\<lambda>y. (rm(x := None)) y = None) q = filter (\<lambda>y. rm y = None) q"
      using nx by (intro filter_cong) auto
    with ih False show ?thesis by simp
  qed
qed

lemma prune_loop_result:
  "prune_loop q rm = (q', rm', e) \<Longrightarrow>
     (e = None \<longrightarrow> (\<exists>x r. q' = x # r \<and> rm' x = None)) \<and> (e \<noteq> None \<longrightarrow> q' = [])"
  by (induction q arbitrary: rm) (auto split: if_splits)

subsection \<open>The count and the live items\<close>

lemma agrees_add:
  assumes "agrees s L" and "fst (add s now delay act a) \<notin> set (queue s)"
  shows "agrees (snd (add s now delay act a)) (L @ [fst (add s now delay act a)])"
proof -
  define x where "x = Item (now + delay / 1000) act a"
  have fx: "fst (add s now delay act a) = x"
    and sx: "snd (add s now delay act a) = s\<lparr>queue := heappush (queue s) x, count := count s + 1\<rparr>"
    by (simp_all add: add_def x_def Let_def)
  from assms fx have nin: "x \<notin> set (queue s)" by simp
  from assms(1) have ag: "distinct (queue s)" "dom (removed s) \<subseteq> set (queue s)"
    "mset L = mset (filter (\<lambda>y. removed s y = None) (queue s))" "count s = int (length L)"
    by (auto simp: agrees_def)
  from ag(2) nin have un: "removed s x = None" by auto
  have "mset (filter (\<lambda>y. removed s y = None) (insort_key due x (queue s)))
        = add_mset x (mset (filter (\<lambda>y. removed s y = None) (queue s)))"
    using un by simp
  with ag nin show ?thesis
    unfolding fx sx
    by (auto simp: agrees_def heappush_def distinct_insort set_insort_key)
qed

lemma length_remove1_int:
  "x \<in> set L \<Longrightarrow> int (length (remove1 x L)) = int (length L) - 1"
  by (induction L) auto

lemma mset_filter_marked:
  "distinct q \<Longrightarrow>
     mset (filter (\<lambda>y. (rm(x \<mapsto> b)) y = None) q) = mset (filter (\<lambda>y. rm y = None) q) - {#x#}"
proof (induction q)
  case Nil
  then show ?case by simp
next
  case (Cons y q)
  then have ih: "mset (filter (\<lambda>y. (rm(x \<mapsto> b)) y = None) q)
                 = mset (filter (\<lambda>y. rm y = None) q) - {#x#}"
    and ny: "y \<notin> set q" by auto
  show ?case
  proof (cases "y = x")
    case True
    with ny have "x \<notin># mset (filter (\<lambda>y. rm y = None) q)" by simp
    with ih True show ?thesis by (simp add: diff_single_trivial)
  next
    case False
    with ih show ?thesis by simp
  qed
qed

lemma agrees_remove:
  assumes "agrees s L" and "x \<in> set L"
  shows "agrees (remove s x) (remove1 x L)"
proof -
  from assms(1) have ag: "distinct (queue s)" "dom (removed s) \<subseteq> set (queue s)"
    "mset L = mset (filter (\<lambda>y. removed s y = None) (queue s))" "count s = int (length L)"
    by (auto simp: agrees_def)
  from assms(2) have "x \<in># mset L" by simp
  with ag(3) have xin: "x \<in> set (queue s)" by auto
  from assms(2) have len: "int (length (remove1 x L)) = int (length L) - 1"
    by (rule length_remove1_int)
  have "mset (remove1 x L)
        = mset (filter (\<lambda>y. ((removed s)(x \<mapsto> True)) y = None) (queue s))"
    using mset_filter_marked [OF ag(1), of "removed s" x True] ag(3)
    by (simp only: mset_remove1)
  with ag xin len show ?thesis
    by (auto simp: agrees_def remove_def)
qed

lemma agrees_pop:
  assumes "agrees s L"
  shows "agrees (fst (pop s)) (case popped s of None \<Rightarrow> L | Some it \<Rightarrow> remove1 it L)"
proof -
  obtain q' rm' e where pl: "prune_loop (queue s) (removed s) = (q', rm', e)"
    by (cases "prune_loop (queue s) (removed s)") auto
  from assms have ag: "distinct (queue s)" "dom (removed s) \<subseteq> set (queue s)"
    "mset L = mset (filter (\<lambda>y. removed s y = None) (queue s))" "count s = int (length L)"
    by (auto simp: agrees_def)
  from prune_loop_keeps [OF pl ag(1,2)]
  have k: "distinct q'" "dom rm' \<subseteq> set q'"
    "filter (\<lambda>x. rm' x = None) q' = filter (\<lambda>x. removed s x = None) (queue s)" by auto
  show ?thesis
  proof (cases e)
    case (Some err)
    with prune_loop_result [OF pl] have q': "q' = []" by simp
    with k(3) ag(3) have "L = []" by simp
    with pl Some q' ag k show ?thesis
      by (simp add: agrees_def pop_def popped_def prune_def)
  next
    case None
    with prune_loop_result [OF pl] obtain x r where q': "q' = x # r" and ux: "rm' x = None"
      by auto
    have "filter (\<lambda>y. rm' y = None) q' = x # filter (\<lambda>y. rm' y = None) r"
      using q' ux by simp
    with k(3) ag(3) have "mset L = mset (x # filter (\<lambda>y. rm' y = None) r)"
      by (simp only:)
    then have mL: "mset L = add_mset x (mset (filter (\<lambda>y. rm' y = None) r))"
      by (simp del: mset_filter)
    then have xL: "x \<in> set L" by (metis mset_eq_setD list.set_intros(1) set_mset_add_mset_insert set_mset_mset insertI1)
    then have len: "int (length (remove1 x L)) = int (length L) - 1"
      by (rule length_remove1_int)
    from mL have m2: "mset (remove1 x L) = mset (filter (\<lambda>y. rm' y = None) r)" by simp
    from k(1,2) q' ux have d: "distinct r" "dom rm' \<subseteq> set r" by auto
    from pl None q' d m2 len ag(4) show ?thesis
      by (simp add: agrees_def pop_def popped_def prune_def del: mset_filter mset_remove1)
  qed
qed

lemma agrees_step:
  assumes "agrees s L"
    and "case x of Add now delay act a \<Rightarrow> fst (add s now delay act a) \<notin> set (queue s)
         | Remove it \<Rightarrow> it \<in> set L | Pop \<Rightarrow> True"
  shows "agrees (apply_op s x) (live_op s L x)"
proof (cases x)
  case (Add now delay act a)
  with assms show ?thesis by (simp add: agrees_add)
next
  case (Remove it)
  with assms show ?thesis by (simp add: agrees_remove)
next
  case Pop
  with assms show ?thesis by (simp add: agrees_pop)
qed

lemma agrees_run_ops:
  "agrees s L \<Longrightarrow> orderly s L ops \<Longrightarrow> agrees (fst (run_ops s L ops)) (snd (run_ops s L ops))"
proof (induction ops arbitrary: s L)
  case Nil
  then show ?case by simp
next
  case (Cons x xs)
  from Cons.prems have "agrees (apply_op s x) (live_op s L x)"
    by (intro agrees_step) auto
  moreover from Cons.prems have "orderly (apply_op s x) (live_op s L x) xs" by simp
  ultimately show ?case using Cons.IH by simp
qed

lemma agrees_init: "agrees Scheduler_init []"
  by (simp add: agrees_def Scheduler_init_def)

lemmas scheduler_eval =
  Scheduler_init_def add_def heappush_def remove_def pop_def popped_def prune_def
  timeout_def len_def truth_def Let_def

subsection \<open>Every orderly sequence leaves a consistent scheduler\<close>

lemma sorted_apply_op: "sorted (map due (queue s)) \<Longrightarrow> sorted (map due (queue (apply_op s x)))"
proof (cases x)
  case (Add now delay act a)
  assume "sorted (map due (queue s))"
  with Add show ?thesis by (simp add: add_def Let_def heappush_def sorted_insort_key)
next
  case (Remove it)
  assume "sorted (map due (queue s))"
  with Remove show ?thesis by (simp add: remove_def)
next
  case Pop
  assume srt: "sorted (map due (queue s))"
  obtain q' rm' e where pl: "prune_loop (queue s) (removed s) = (q', rm', e)"
    by (cases "prune_loop (queue s) (removed s)") auto
  from prune_loop_suffix [OF pl] obtain p where "queue s = p @ q'" by blast
  with srt have "sorted (map due q')" by (simp add: sorted_append)
  with Pop pl show ?thesis
    by (auto simp: pop_def prune_def split: option.splits list.splits)
qed

lemma sorted_run_ops:
  "sorted (map due (queue s)) \<Longrightarrow> sorted (map due (queue (fst (run_ops s L ops))))"
  by (induction ops arbitrary: s L) (simp_all add: sorted_apply_op)

lemma agrees_live_items: "agrees s L \<Longrightarrow> agrees s (live_items s)"
proof -
  assume a: "agrees s L"
  then have "mset L = mset (live_items s)" by (simp add: agrees_def live_items_def)
  then have "length L = length (live_items s)" by (rule mset_eq_length)
  with a show ?thesis by (simp add: agrees_def live_items_def)
qed

lemma sound_run_ops:
  assumes "orderly Scheduler_init [] ops"
  shows "sound (fst (run_ops Scheduler_init [] ops))"
proof -
  from agrees_init assms
  have "agrees (fst (run_ops Scheduler_init [] ops)) (snd (run_ops Scheduler_init [] ops))"
    by (rule agrees_run_ops)
  then have "agrees (fst (run_ops Scheduler_init [] ops)) (live_items (fst (run_ops Scheduler_init [] ops)))"
    by (rule agrees_live_items)
  moreover have "sorted (map due (queue (fst (run_ops Scheduler_init [] ops))))"
    by (rule sorted_run_ops) (simp add: Scheduler_init_def)
  ultimately show ?thesis by (simp add: sound_def)
qed

section \<open>Facts about the hub\<close>

subsection \<open>Evaluation\<close>

lemmas hub_eval = Hub_init_def time_time_def scheduled_add_def resume_def spawn_def switch_value_def
  pause_suspend_def pause_resume_def sleep_def nothing_to_do_def scheduled_timeout_def
  compute_timeout_def wait_def pump_def run_task_def no_report_def
  report_of_def returned_def hub_after_def quiet_def eager_def

subsection \<open>Pause, and the first test of pump\<close>

lemma pause_resume_returns: "snd (pause_resume g tmo it v) = Inr v"
  by (simp add: pause_resume_def)

lemma pump_False_iff:
  "(\<exists>h' r. pump E n h = Done (False, h', r))
     \<longleftrightarrow> ready h = [] \<and> len (scheduled h) = 0 \<and> registered h = []"
proof
  assume "\<exists>h' r. pump E n h = Done (False, h', r)"
  then obtain h' r where p: "pump E n h = Done (False, h', r)" by blast
  have "nothing_to_do h = Inr True"
  proof (rule ccontr)
    assume "nothing_to_do h \<noteq> Inr True"
    with p show False
      by (auto simp: pump_def split: sum.splits bool.splits prod.splits outcome.splits)
  qed
  then show "ready h = [] \<and> len (scheduled h) = 0 \<and> registered h = []"
    by (auto simp: nothing_to_do_def truth_def split: if_splits sum.splits bool.splits)
next
  assume "ready h = [] \<and> len (scheduled h) = 0 \<and> registered h = []"
  then have "nothing_to_do h = Inr True"
    by (simp add: nothing_to_do_def truth_def)
  then show "\<exists>h' r. pump E n h = Done (False, h', r)"
    by (simp add: pump_def)
qed

lemma State_send_sets: "stopped_value (State_send h v) = Some v"
  by (simp add: State_send_def)

subsection \<open>The ready deque only grows\<close>
















subsection \<open>Stop\<close>

lemma stop_loop_raises:
  assumes "truth (scheduled h) = Inr True"
  shows "\<exists>h' e. stop_loop h = (h', Some e)"
proof -
  obtain s1 res where p: "pop (scheduled h) = (s1, res)" by (cases "pop (scheduled h)")
  show ?thesis
  proof (cases res)
    case (Inl e)
    with assms p show ?thesis by (subst stop_loop.simps) simp
  next
    case (Inr ta)
    obtain t a where "ta = (t, a)" by (cases ta)
    with Inr assms p show ?thesis by (subst stop_loop.simps) (simp add: throw_to_def)
  qed
qed

subsection \<open>The timeout on a consistent scheduler\<close>

lemma sorted_due_head_least:
  assumes "sorted (map due (x # r))" and "y \<in> set (filter P (x # r))"
  shows "due x \<le> due y"
  using assms by (auto split: if_splits)

lemma sound_prune:
  assumes "sound s" and "count s > 0"
  shows "\<exists>x r rm. prune s = (s\<lparr>queue := x # r, removed := rm\<rparr>, None)
           \<and> rm x = None
           \<and> live_items (s\<lparr>queue := x # r, removed := rm\<rparr>) = live_items s
           \<and> sound (s\<lparr>queue := x # r, removed := rm\<rparr>)
           \<and> due x = Min (due ` set (live_items s))"
proof -
  obtain q' rm' e where pl: "prune_loop (queue s) (removed s) = (q', rm', e)"
    by (cases "prune_loop (queue s) (removed s)") auto
  from assms(1) have d: "distinct (queue s)" and sub: "dom (removed s) \<subseteq> set (queue s)"
    and c: "count s = int (length (live_items s))" and srt: "sorted (map due (queue s))"
    by (auto simp: sound_def agrees_def)
  from prune_loop_keeps [OF pl d sub]
  have k: "distinct q'" "dom rm' \<subseteq> set q'"
    "filter (\<lambda>x. rm' x = None) q' = live_items s" by (auto simp: live_items_def)
  have "e = None"
  proof (rule ccontr)
    assume "e \<noteq> None"
    with prune_loop_result [OF pl] have "q' = []" by simp
    with k(3) have "live_items s = []" by simp
    with c assms(2) show False by simp
  qed
  with prune_loop_result [OF pl] obtain x r where q': "q' = x # r" and ux: "rm' x = None"
    by auto
  let ?s1 = "s\<lparr>queue := x # r, removed := rm'\<rparr>"
  from prune_loop_suffix [OF pl] obtain p where "queue s = p @ q'" by blast
  with srt have srt': "sorted (map due q')" by (simp add: sorted_append)
  have li: "live_items ?s1 = live_items s" using k(3) q' by (simp add: live_items_def)
  have snd: "sound ?s1"
    using k q' srt' c li by (simp add: sound_def agrees_def live_items_def)
  have hd: "live_items s = x # filter (\<lambda>y. rm' y = None) r" using k(3) q' ux by simp
  have "due x = Min (due ` set (live_items s))"
  proof (rule sym, rule Min_eqI)
    show "finite (due ` set (live_items s))" by simp
    show "due x \<in> due ` set (live_items s)" using hd by simp
    fix d assume "d \<in> due ` set (live_items s)"
    then obtain y where "y \<in> set (live_items s)" and dy: "d = due y" by auto
    then have "y \<in> set (filter (\<lambda>y. rm' y = None) (x # r))" using hd ux by simp
    with srt' q' have "due x \<le> due y" using sorted_due_head_least by blast
    with dy show "due x \<le> d" by simp
  qed
  with pl \<open>e = None\<close> q' ux li snd show ?thesis
    by (auto simp: prune_def)
qed

lemma sound_timeout:
  assumes "sound s" and "count s > 0"
  shows "\<exists>s1. timeout s now = (s1, Inr (Min (due ` set (live_items s)) - now))
           \<and> live_items s1 = live_items s \<and> sound s1 \<and> count s1 = count s
           \<and> s1 = fst (prune s)"
proof -
  from sound_prune [OF assms] obtain x r rm where
    "prune s = (s\<lparr>queue := x # r, removed := rm\<rparr>, None)" "rm x = None"
    "live_items (s\<lparr>queue := x # r, removed := rm\<rparr>) = live_items s"
    "sound (s\<lparr>queue := x # r, removed := rm\<rparr>)"
    "due x = Min (due ` set (live_items s))" by blast
  then show ?thesis by (simp add: timeout_def)
qed

lemma sound_count: "sound s \<Longrightarrow> count s = int (length (live_items s))"
  by (simp add: sound_def agrees_def)

lemma sound_truth: "sound s \<Longrightarrow> truth s = Inr (live_items s \<noteq> [])"
  by (simp add: truth_def len_def sound_count)

lemma compute_timeout_sound:
  assumes "sound (scheduled h)"
  shows "\<exists>g. compute_timeout h = Inr (spec_timeout h, g)
           \<and> (live_items (scheduled h) = [] \<longrightarrow> g = h)
           \<and> (live_items (scheduled h) \<noteq> [] \<longrightarrow>
                g = h\<lparr>scheduled := fst (prune (scheduled h)), reads := Suc (reads h)\<rparr>)"
proof (cases "live_items (scheduled h) = []")
  case True
  with assms show ?thesis
    by (simp add: compute_timeout_def sound_truth spec_timeout_def)
next
  case False
  with assms have "count (scheduled h) > 0" by (simp add: sound_count)
  from sound_timeout [OF assms this, of "clock h (reads h)"] obtain s1 where
    "timeout (scheduled h) (clock h (reads h))
       = (s1, Inr (Min (due ` set (live_items (scheduled h))) - clock h (reads h)))"
    "s1 = fst (prune (scheduled h))" by blast
  with assms False show ?thesis
    by (simp add: compute_timeout_def sound_truth spec_timeout_def scheduled_timeout_def)
qed

lemma compute_timeout_nonpos: "compute_timeout h = Inr (t, g) \<Longrightarrow> t \<le> 0"
  by (auto simp: compute_timeout_def split: sum.splits bool.splits prod.splits)

lemma pump_polled:
  assumes "pump E n h = Done (True, h', r)" and "h1 = fst (drain E (ready h) (h\<lparr>ready := []\<rparr>))"
  shows "\<exists>t g. compute_timeout h1 = Inr (t, g) \<and> registered g = registered h1
     \<and> polled r = (if registered h1 \<noteq> [] then Some t else None)
     \<and> slept r = None"
proof -
  from assms(1) have ntd: "nothing_to_do h = Inr False"
    by (auto simp: pump_def split: sum.splits bool.splits)
  obtain rs where dr: "drain E (ready h) (h\<lparr>ready := []\<rparr>) = (h1, rs)"
    using assms(2) by (cases "drain E (ready h) (h\<lparr>ready := []\<rparr>)") simp
  from assms(1) ntd dr obtain tmo h2 where ct: "compute_timeout h1 = Inr (tmo, h2)"
    by (auto simp: pump_def split: sum.splits)
  from assms(1) ntd dr ct obtain events pd sl h3 where w: "wait tmo h2 = Done (events, pd, sl, h3)"
    by (auto simp: pump_def split: outcome.splits)
  from assms(1) ntd dr ct w obtain h4 fs where f: "fire E n h3 = Done (h4, fs)"
    by (auto simp: pump_def split: outcome.splits)
  from assms(1) ntd dr ct w f
  have r: "r = \<lparr>ran_ready = rs, polled = pd, slept = sl, fired = fs\<rparr>"
    by (auto simp: pump_def)
  have reg: "registered h2 = registered h1"
    using ct by (auto simp: compute_timeout_def scheduled_timeout_def split: sum.splits bool.splits prod.splits)
  have "tmo \<le> 0" using ct by (rule compute_timeout_nonpos)
  with w reg have "pd = (if registered h1 \<noteq> [] then Some tmo else None)" "sl = None"
    by (auto simp: wait_def split: if_splits option.splits)
  with ct reg r show ?thesis by simp
qed

subsection \<open>A hub with nothing due\<close>




lemma sound_overdue: "sound (scheduled overdue_hub)"
  by (simp add: overdue_hub_def sound_def agrees_def live_items_def hub_eval scheduler_eval)


subsection \<open>The loop that fires the timers\<close>

















subsection \<open>Cancelled items\<close>

lemma count_list_insort_key:
  "count_list (insort_key f x xs) y = (if x = y then 1 else 0) + count_list xs y"
  by (induction xs) auto

lemma cancelled_add:
  assumes "cancelled it s" and "makes (Add now delay act a) \<noteq> Some it"
  shows "cancelled it (snd (add s now delay act a))"
  using assms
  by (auto simp: cancelled_def add_def Let_def heappush_def set_insort_key count_list_insort_key)

lemma cancelled_remove: "cancelled it s \<Longrightarrow> cancelled it (remove s y)"
  by (auto simp: cancelled_def remove_def)

lemma prune_loop_cancelled:
  "prune_loop q rm = (q', rm', e) \<Longrightarrow> (it \<in> set q \<longrightarrow> rm it \<noteq> None) \<Longrightarrow> count_list q it \<le> 1 \<Longrightarrow>
     (it \<in> set q' \<longrightarrow> rm' it \<noteq> None) \<and> count_list q' it \<le> 1"
proof (induction q arbitrary: rm)
  case Nil
  then show ?case by auto
next
  case (Cons x q)
  show ?case
  proof (cases "rm x = None")
    case True
    with Cons.prems show ?thesis by auto
  next
    case False
    with Cons.prems(1) have run: "prune_loop q (rm(x := None)) = (q', rm', e)" by simp
    show ?thesis
    proof (cases "x = it")
      case True
      with Cons.prems(3) have "count_list q it = 0" by simp
      then have nin: "it \<notin> set q" by (simp add: count_list_0_iff)
      from prune_loop_suffix [OF run] obtain p where "q = p @ q'" by blast
      with nin have "it \<notin> set q'" by simp
      then show ?thesis by (simp add: count_list_0_iff)
    next
      case neq: False
      have a: "it \<in> set q \<longrightarrow> (rm(x := None)) it \<noteq> None" using Cons.prems(2) neq by simp
      have b: "count_list q it \<le> 1" using Cons.prems(3) neq by simp
      from Cons.IH [OF run a b] show ?thesis .
    qed
  qed
qed

lemma popped_not_cancelled:
  assumes "cancelled it s" and "popped s = Some y"
  shows "y \<noteq> it"
proof -
  obtain q' rm' e where pl: "prune_loop (queue s) (removed s) = (q', rm', e)"
    by (cases "prune_loop (queue s) (removed s)") auto
  from assms(1) have "it \<in> set (queue s) \<longrightarrow> removed s it \<noteq> None" "count_list (queue s) it \<le> 1"
    by (simp_all add: cancelled_def)
  from prune_loop_cancelled [OF pl this] have k: "it \<in> set q' \<longrightarrow> rm' it \<noteq> None" by simp
  from assms(2) pl have e: "e = None" by (auto simp: popped_def prune_def split: option.splits)
  from prune_loop_result [OF pl] e obtain x r where q': "q' = x # r" and u: "rm' x = None" by auto
  with assms(2) pl e have "y = x" by (simp add: popped_def prune_def)
  with k q' u show ?thesis by auto
qed

lemma cancelled_pop: "cancelled it s \<Longrightarrow> cancelled it (fst (pop s))"
proof -
  assume c: "cancelled it s"
  obtain q' rm' e where pl: "prune_loop (queue s) (removed s) = (q', rm', e)"
    by (cases "prune_loop (queue s) (removed s)") auto
  from c have "it \<in> set (queue s) \<longrightarrow> removed s it \<noteq> None" "count_list (queue s) it \<le> 1"
    by (simp_all add: cancelled_def)
  from prune_loop_cancelled [OF pl this]
  have k: "it \<in> set q' \<longrightarrow> rm' it \<noteq> None" "count_list q' it \<le> 1" by simp_all
  show ?thesis
  proof (cases e)
    case (Some err)
    with pl k show ?thesis by (simp add: pop_def prune_def cancelled_def)
  next
    case None
    from prune_loop_result [OF pl] None obtain x r where q': "q' = x # r" and u: "rm' x = None"
      by auto
    with k have "it \<in> set r \<longrightarrow> rm' it \<noteq> None" "count_list r it \<le> 1"
      by (auto split: if_splits)
    with pl None q' show ?thesis by (simp add: pop_def prune_def cancelled_def)
  qed
qed

lemma cancelled_apply_op:
  assumes "cancelled it s" and "makes x \<noteq> Some it"
  shows "cancelled it (apply_op s x)"
proof (cases x)
  case (Add now delay act a)
  with assms show ?thesis by (simp add: cancelled_add del: makes.simps)
next
  case (Remove y)
  with assms show ?thesis by (simp add: cancelled_remove)
next
  case Pop
  with assms show ?thesis by (simp add: cancelled_pop)
qed

lemma cancelled_never_popped:
  "cancelled it s \<Longrightarrow> \<forall>x \<in> set ops. makes x \<noteq> Some it \<Longrightarrow> it \<notin> set (popped_items s ops)"
proof (induction ops arbitrary: s)
  case Nil
  then show ?case by simp
next
  case (Cons x xs)
  from Cons.prems have c': "cancelled it (apply_op s x)"
    by (intro cancelled_apply_op) auto
  from Cons.prems have "\<forall>x \<in> set xs. makes x \<noteq> Some it" by simp
  from Cons.IH [OF c' this] have rest: "it \<notin> set (popped_items (apply_op s x) xs)" .
  have "it \<notin> set (case x of Pop \<Rightarrow> (case popped s of None \<Rightarrow> [] | Some y \<Rightarrow> [y]) | _ \<Rightarrow> [])"
    using popped_not_cancelled [OF Cons.prems(1)]
    by (cases x; cases "popped s") auto
  with rest show ?case by simp
qed

subsection \<open>The dispatcher\<close>

lemma Sender_close_pipes:
  "pipes (Sender_close g s) = (pipes g)(s := Closed) \<and> registered (Sender_close g s) = registered g"
  by (simp add: Sender_close_def resume_def split: pipe.splits)

lemma close_all_pipes:
  "pipes (fold (\<lambda>sender g. Sender_close g sender) ss g) s
     = (if s \<in> set ss then Closed else pipes g s)
   \<and> registered (fold (\<lambda>sender g. Sender_close g sender) ss g) = registered g"
  by (induction ss arbitrary: g) (auto simp: Sender_close_pipes)

lemma Sender_send_pipes:
  assumes "Sender_send h s v = Some g"
  shows "registered g = registered h \<and> (\<forall>s'. pipes h s' = Closed \<longrightarrow> pipes g s' = Closed)"
  using assms by (auto simp: Sender_send_def resume_def split: pipe.splits)

lemma dispatch_step:
  assumes "dispatch_events p h ((fd, m) # es) = Dispatched h'"
  shows "\<exists>g. dispatch_events p g es = Dispatched h' \<and> registered g = registered h
           \<and> (\<forall>s. pipes h s = Closed \<longrightarrow> pipes g s = Closed)
           \<and> (\<forall>masks. m = p \<and> map_of (registered h) fd = Some masks
                 \<longrightarrow> (\<forall>s \<in> snd ` set masks. pipes g s = Closed))"
proof (cases "map_of (registered h) fd")
  case None
  with assms show ?thesis by auto
next
  case (Some masks)
  show ?thesis
  proof (cases "m = p")
    case True
    let ?g = "fold (\<lambda>sender g. Sender_close g sender) (map snd masks) h"
    from assms Some True have "dispatch_events p ?g es = Dispatched h'" by simp
    moreover have "registered ?g = registered h" by (simp add: close_all_pipes)
    moreover have "\<forall>s. pipes h s = Closed \<longrightarrow> pipes ?g s = Closed" by (simp add: close_all_pipes)
    moreover have "\<forall>s \<in> snd ` set masks. pipes ?g s = Closed" by (simp add: close_all_pipes)
    ultimately show ?thesis using Some by auto
  next
    case False
    show ?thesis
    proof (cases "map_of masks m")
      case None
      with assms Some False show ?thesis by simp
    next
      case sender: (Some s)
      show ?thesis
      proof (cases "Sender_ready h s")
        case True
        with assms Some False sender obtain g where
          snd: "Sender_send h s TrueV = Some g" and d: "dispatch_events p g es = Dispatched h'"
          by (auto split: option.splits)
        from Sender_send_pipes [OF snd] d False show ?thesis by auto
      next
        case nr: False
        with assms Some False sender show ?thesis by auto
      qed
    qed
  qed
qed

lemma dispatch_closed_stays:
  "dispatch_events p h es = Dispatched h' \<Longrightarrow> pipes h s = Closed \<Longrightarrow> pipes h' s = Closed"
proof (induction es arbitrary: h)
  case Nil
  then show ?case by simp
next
  case (Cons e es)
  obtain fd m where e: "e = (fd, m)" by (cases e)
  from dispatch_step [OF Cons.prems(1) [unfolded e]] obtain g where
    "dispatch_events p g es = Dispatched h'" "\<forall>s. pipes h s = Closed \<longrightarrow> pipes g s = Closed"
    by blast
  with Cons.IH Cons.prems(2) show ?case by blast
qed

lemma dispatch_registered:
  "dispatch_events p h es = Dispatched h' \<Longrightarrow> registered h' = registered h"
proof (induction es arbitrary: h)
  case Nil
  then show ?case by simp
next
  case (Cons e es)
  obtain fd m where e: "e = (fd, m)" by (cases e)
  from dispatch_step [OF Cons.prems(1) [unfolded e]] obtain g where
    "dispatch_events p g es = Dispatched h'" "registered g = registered h"
    by blast
  with Cons.IH show ?case by metis
qed

lemma dispatch_pollerr_closes:
  "dispatch_events p h es = Dispatched h' \<Longrightarrow> (fd, p) \<in> set es \<Longrightarrow>
     map_of (registered h) fd = Some masks \<Longrightarrow> s \<in> snd ` set masks \<Longrightarrow> pipes h' s = Closed"
proof (induction es arbitrary: h)
  case Nil
  then show ?case by simp
next
  case (Cons e es)
  obtain fd' m where e: "e = (fd', m)" by (cases e)
  from dispatch_step [OF Cons.prems(1) [unfolded e]] obtain g where
    d: "dispatch_events p g es = Dispatched h'" and r: "registered g = registered h"
    and c: "\<forall>masks. m = p \<and> map_of (registered h) fd' = Some masks
                 \<longrightarrow> (\<forall>s \<in> snd ` set masks. pipes g s = Closed)"
    by blast
  show ?case
  proof (cases "e = (fd, p)")
    case True
    with e c Cons.prems(3,4) have "pipes g s = Closed" by auto
    with d show ?thesis by (rule dispatch_closed_stays)
  next
    case False
    with Cons.prems(2) have "(fd, p) \<in> set es" by simp
    with Cons.IH [OF d] r Cons.prems(3,4) show ?thesis by simp
  qed
qed

lemma Sender_ready_send: "Sender_ready h s \<Longrightarrow> \<exists>t. pipes h s = Recver_waiting t
    \<and> Sender_send h s v = Some (resume (h\<lparr>pipes := (pipes h)(s := Idle)\<rparr>) t [v])"
  by (auto simp: Sender_ready_def Sender_send_def split: pipe.splits)

lemma expected_Cons:
  "expected p h (e # es) \<longleftrightarrow> expected p h [e] \<and> expected p h es"
  by (auto simp: expected_def)

lemma expected_registered: "registered g = registered h \<Longrightarrow> expected p g es = expected p h es"
  by (simp add: expected_def)

lemma dispatch_completes:
  "expected p h es \<Longrightarrow> \<exists>h'. dispatch_events p h es = Dispatched h'"
proof (induction es arbitrary: h)
  case Nil
  then show ?case by simp
next
  case (Cons e es)
  obtain fd m where e: "e = (fd, m)" by (cases e)
  from Cons.prems have hd: "expected p h [(fd, m)]" and tl: "expected p h es"
    using expected_Cons [of p h e es] e by simp_all
  have next_hub: "\<exists>h'. dispatch_events p g es = Dispatched h'" if "registered g = registered h" for g
    using Cons.IH [of g] tl expected_registered [OF that] by simp
  show ?case
  proof (cases "map_of (registered h) fd")
    case None
    with e next_hub [of h] show ?thesis by simp
  next
    case (Some masks)
    show ?thesis
    proof (cases "m = p")
      case True
      with e Some next_hub [of "fold (\<lambda>sender g. Sender_close g sender) (map snd masks) h"]
      show ?thesis by (simp add: close_all_pipes)
    next
      case False
      with hd Some obtain s where sender: "map_of masks m = Some s"
        by (auto simp: expected_def)
      show ?thesis
      proof (cases "Sender_ready h s")
        case True
        from Sender_ready_send [OF True, of TrueV] obtain t where
          snd: "Sender_send h s TrueV = Some (resume (h\<lparr>pipes := (pipes h)(s := Idle)\<rparr>) t [TrueV])"
          by blast
        have "registered (resume (h\<lparr>pipes := (pipes h)(s := Idle)\<rparr>) t [TrueV]) = registered h"
          by (simp add: resume_def)
        from next_hub [OF this] e Some False sender True snd show ?thesis by simp
      next
        case nr: False
        with e Some False sender next_hub [of h] show ?thesis by simp
      qed
    qed
  qed
qed

section \<open>The claims\<close>

subsection \<open>C1: what pause gives back\<close>

text \<open>
  C1 says that when the timeout item of a \<^verbatim>\<open>pause\<close> fires, the \<^verbatim>\<open>pause\<close> call raises Timeout
  in the task. In the run below a task pauses with a timeout of 20 ms, the next \<^verbatim>\<open>pump\<close>
  fires the item, and the second half of \<^verbatim>\<open>pause\<close>, resumed with what the switch delivers,
  returns the Timeout object: \<^verbatim>\<open>return resume\<close> is the only way out of the function.
\<close>

theorem pause_timeout_is_returned:
  "snd (pause_suspend ticking_hub (Greenlet 1) 7 20)
     = Inr (Some (Item (1 / 50) (Greenlet 1) [Timeout 7 20]))
   \<and> map_option fired (report_of (pump quiet 3 (fst (pause_suspend ticking_hub (Greenlet 1) 7 20))))
     = Some [(1 / 50 - 2, Greenlet 1, [Timeout 7 20])]
   \<and> snd (pause_resume ticking_hub 20
             (Item (1 / 50) (Greenlet 1) [Timeout 7 20]) (switch_value [Timeout 7 20]))
       = Inr (Timeout 7 20)
   \<and> snd (pause_resume ticking_hub 20
             (Item (1 / 50) (Greenlet 1) [Timeout 7 20]) (switch_value [Timeout 7 20]))
       \<noteq> Inl (Thrown (Timeout 7 20))"
  by (simp add: ticking_hub_def hub_eval scheduler_eval eval_nat_numeral)

text \<open>
  C1, amended: a call of \<^verbatim>\<open>pause\<close> with a timeout greater than -1, made outside the loop,
  schedules an item for the calling task whose argument is the Timeout object; when that
  item fires, the value the switch delivers is that object and \<^verbatim>\<open>pause\<close> returns it as its
  value, without raising and without touching the hub; and whatever value resumes the
  task, \<^verbatim>\<open>pause\<close> returns that value.
\<close>

theorem pause_returns_what_resumes_it:
  assumes "tmo > - 1" and "cur \<noteq> loop h"
  shows "\<exists>it h1. pause_suspend h cur k tmo = (h1, Inr (Some it))
           \<and> action it = cur \<and> args it = [Timeout k tmo]
           \<and> it \<in> set (queue (scheduled h1))
           \<and> pause_resume g tmo it (switch_value (args it)) = (g, Inr (Timeout k tmo))
           \<and> (\<forall>v. snd (pause_resume g tmo it v) = Inr v)"
proof -
  define it where "it = Item (clock h (reads h) + tmo / 1000) cur [Timeout k tmo]"
  define h1 where "h1 = h\<lparr>reads := Suc (reads h),
     scheduled := (scheduled h)\<lparr>queue := heappush (queue (scheduled h)) it,
                                count := count (scheduled h) + 1\<rparr>\<rparr>"
  have "pause_suspend h cur k tmo = (h1, Inr (Some it))"
    using assms
    by (simp add: pause_suspend_def scheduled_add_def time_time_def add_def Let_def it_def h1_def)
  moreover have "action it = cur" "args it = [Timeout k tmo]" by (simp_all add: it_def)
  moreover have "it \<in> set (queue (scheduled h1))"
    by (simp add: h1_def heappush_def set_insort_key)
  moreover have "pause_resume g tmo it (switch_value (args it)) = (g, Inr (Timeout k tmo))"
    by (simp add: pause_resume_def switch_value_def it_def)
  ultimately show ?thesis
    using pause_resume_returns by blast
qed

theorem pause_returns_what_resumes_it_witness:
  "(20::real) > - 1 \<and> Greenlet 1 \<noteq> loop (Hub_init (Greenlet 0) (\<lambda>i. 0) [])
   \<and> snd (pause_suspend (Hub_init (Greenlet 0) (\<lambda>i. 0) []) (Greenlet 1) 7 20)
        = Inr (Some (Item (1 / 50) (Greenlet 1) [Timeout 7 20]))
   \<and> snd (pause_resume two_ready 20 (Item (1 / 50) (Greenlet 1) [Timeout 7 20]) (Obj 5)) = Inr (Obj 5)"
  using pause_returns_what_resumes_it [of 20 "Greenlet 1" "Hub_init (Greenlet 0) (\<lambda>i. 0) []" 7
      two_ready]
  by (simp add: hub_eval scheduler_eval)

subsection \<open>C2: stop\<close>

text \<open>
  C2 says that \<^verbatim>\<open>stop\<close>, on a hub with a registered fd and a scheduled timer item, closes the
  fd Senders, raises Stop in every task left in the heap and then waits for the stopped
  latch. On such a hub the second half of \<^verbatim>\<open>stop\<close> pops the first item and calls
  \<^verbatim>\<open>throw_to\<close>, whose first statement raises: \<^verbatim>\<open>stop\<close> ends with that exception, no Stop is
  delivered and the latch is never awaited.
\<close>

theorem stop_raises_remove_throw_to:
  "snd (stop_resume parked_hub (Greenlet 1)) = Stop_raises (Exception ''REMOVE throw_to'')
   \<and> length (registered parked_hub) = 1 \<and> len (scheduled parked_hub) = 1"
  apply (simp add: stop_resume_def parked_hub_def stop_senders_def Sender_stop_def Sender_close_def hub_eval scheduler_eval)
  apply (subst stop_loop.simps)
  apply (simp add: throw_to_def hub_eval scheduler_eval)
  done

subsection \<open>C3: which timers fire\<close>




subsection \<open>C4: the timeout passed to poll\<close>

text \<open>
  C4 says that whenever a timer item exists the timeout passed to poll is at most 0 and
  poll never blocks. The timeout is \<open>min (due_top - now) 0\<close>, which is negative as soon as
  the top item is overdue: with one item due at 0 and the clock at 1, poll is called
  with -1, the value with which it blocks.
\<close>

theorem poll_gets_blocking_timeout:
  "map_option polled (report_of (pump quiet 2 overdue_hub)) = Some (Some (- 1))
   \<and> poll_blocks (- 1) \<and> len (scheduled overdue_hub) = 1 \<and> registered overdue_hub \<noteq> []"
  by (simp add: overdue_hub_def poll_blocks_def hub_eval scheduler_eval eval_nat_numeral)

text \<open>
  C4, amended: in a run of \<^verbatim>\<open>pump\<close> on a consistent timer heap, the timeout passed to poll
  is \<open>min (due_top - now) 0\<close> when the heap has a live item and -1 when it has none; so
  with a timer item the timeout is at most 0, and it is 0, the value with which poll
  returns at once, exactly when the top item is not overdue. Here the hub \<open>h1\<close> is the hub
  after the ready entries have run, \<open>due_top\<close> is the earliest \<^verbatim>\<open>due\<close> of a live item and
  \<open>now\<close> the reading of the clock in \<^verbatim>\<open>timeout()\<close>.
\<close>

theorem poll_timeout_is_clamped:
  assumes "pump E n h = Done (True, h', r)"
    and "h1 = fst (drain E (ready h) (h\<lparr>ready := []\<rparr>))"
    and "sound (scheduled h1)"
  shows "polled r = (if registered h1 \<noteq> [] then Some (spec_timeout h1) else None)
     \<and> (len (scheduled h1) = 0 \<longrightarrow> spec_timeout h1 = - 1)
     \<and> (len (scheduled h1) \<noteq> 0 \<longrightarrow>
          spec_timeout h1 = min (Min (due ` set (live_items (scheduled h1))) - clock h1 (reads h1)) 0
          \<and> spec_timeout h1 \<le> 0
          \<and> (spec_timeout h1 = 0 \<longleftrightarrow> clock h1 (reads h1) \<le> Min (due ` set (live_items (scheduled h1)))))"
proof -
  from pump_polled [OF assms(1,2)] obtain t g where
    ct: "compute_timeout h1 = Inr (t, g)"
    and pd: "polled r = (if registered h1 \<noteq> [] then Some t else None)" by blast
  from compute_timeout_sound [OF assms(3)] ct have "t = spec_timeout h1" by auto
  with pd have first: "polled r = (if registered h1 \<noteq> [] then Some (spec_timeout h1) else None)"
    by simp
  have len: "len (scheduled h1) = 0 \<longleftrightarrow> live_items (scheduled h1) = []"
    using assms(3) by (simp add: len_def sound_count)
  define M where "M = Min (due ` set (live_items (scheduled h1)))"
  have st: "spec_timeout h1 = (if live_items (scheduled h1) = [] then - 1
                               else min (M - clock h1 (reads h1)) 0)"
    by (simp add: spec_timeout_def M_def)
  have "len (scheduled h1) = 0 \<longrightarrow> spec_timeout h1 = - 1"
    using len st by simp
  moreover have "len (scheduled h1) \<noteq> 0 \<longrightarrow>
          spec_timeout h1 = min (M - clock h1 (reads h1)) 0
          \<and> spec_timeout h1 \<le> 0
          \<and> (spec_timeout h1 = 0 \<longleftrightarrow> clock h1 (reads h1) \<le> M)"
    using len st by (auto simp: min_def)
  ultimately show ?thesis
    using first unfolding M_def by blast
qed

theorem poll_timeout_is_clamped_witness:
  "returned (pump quiet 2 overdue_hub) = Some True
   \<and> sound (scheduled overdue_hub)
   \<and> map_option polled (report_of (pump quiet 2 overdue_hub)) = Some (Some (spec_timeout overdue_hub))
   \<and> spec_timeout overdue_hub = min (0 - 1) 0"
proof -
  obtain h' r where p: "pump quiet 2 overdue_hub = Done (True, h', r)"
    by (simp add: overdue_hub_def hub_eval scheduler_eval eval_nat_numeral)
  have d: "overdue_hub = fst (drain quiet (ready overdue_hub) (overdue_hub\<lparr>ready := []\<rparr>))"
    by (simp add: overdue_hub_def hub_eval scheduler_eval)
  have reg: "registered overdue_hub \<noteq> []" by (simp add: overdue_hub_def hub_eval)
  from poll_timeout_is_clamped [OF p d sound_overdue] reg
  have "polled r = Some (spec_timeout overdue_hub)" by simp
  moreover have "spec_timeout overdue_hub = min (0 - 1) 0"
    by (simp add: spec_timeout_def live_items_def overdue_hub_def hub_eval scheduler_eval)
  ultimately show ?thesis using p sound_overdue
    by (simp add: returned_def report_of_def)
qed

subsection \<open>C5: the snapshot of the ready deque\<close>



subsection \<open>C6: when pump returns False\<close>

text \<open>
  C6: \<^verbatim>\<open>pump\<close> returns False exactly when, at entry, the ready deque is empty, the count of
  the timer heap is 0 and there are no registrations; and when \<^verbatim>\<open>pump\<close> returns False,
  \<^verbatim>\<open>main\<close> leaves its loop and returns with the stopped latch set.
\<close>

theorem pump_false_iff_nothing_left:
  "((\<exists>h' r. pump E n h = Done (False, h', r))
      \<longleftrightarrow> ready h = [] \<and> len (scheduled h) = 0 \<and> registered h = [])
   \<and> (\<forall>h' r. pump E n h = Done (False, h', r)
        \<longrightarrow> (\<exists>g. main E n (Suc m) h = Done g \<and> stopped_value g = Some TrueV))"
proof (intro conjI allI impI)
  show "(\<exists>h' r. pump E n h = Done (False, h', r))
      \<longleftrightarrow> ready h = [] \<and> len (scheduled h) = 0 \<and> registered h = []"
    by (rule pump_False_iff)
next
  fix h' r
  assume "pump E n h = Done (False, h', r)"
  then have "main E n (Suc m) h = Done (State_send h' TrueV)" by simp
  then show "\<exists>g. main E n (Suc m) h = Done g \<and> stopped_value g = Some TrueV"
    by (simp add: State_send_sets)
qed

theorem pump_false_witness:
  "pump quiet 0 (Hub_init (Greenlet 0) (\<lambda>i. 0) []) = Done (False, Hub_init (Greenlet 0) (\<lambda>i. 0) [], no_report)
   \<and> (\<exists>g. main quiet 0 (Suc 0) (Hub_init (Greenlet 0) (\<lambda>i. 0) []) = Done g \<and> stopped_value g = Some TrueV)
   \<and> returned (pump quiet 1 (resume (Hub_init (Greenlet 0) (\<lambda>i. 0) []) (Greenlet 1) [])) = Some True"
  using pump_false_iff_nothing_left [of quiet 0 "Hub_init (Greenlet 0) (\<lambda>i. 0) []" 0]
  by (simp add: hub_eval scheduler_eval)

subsection \<open>C7: the count and the live items\<close>

text \<open>
  C7 says that after every sequence of \<^verbatim>\<open>add\<close>, \<^verbatim>\<open>remove\<close> and \<^verbatim>\<open>pop\<close> the count equals the
  number of live items. \<^verbatim>\<open>remove\<close> decrements the count whatever it is given, so removing
  one item twice leaves the count at -1 with no live item. And the removed dictionary
  is keyed by the value of the item: of two equal items that are both removed, \<^verbatim>\<open>prune\<close>
  drops the first and clears the mark, and a \<^verbatim>\<open>pop\<close> then takes the second, which leaves
  the count at -1 as well.
\<close>

theorem count_is_live_double_remove:
  "len (fst (run_ops Scheduler_init []
       [Add 0 0 (Greenlet 0) [], Remove (Item 0 (Greenlet 0) []), Remove (Item 0 (Greenlet 0) [])])) = - 1
   \<and> snd (run_ops Scheduler_init []
       [Add 0 0 (Greenlet 0) [], Remove (Item 0 (Greenlet 0) []), Remove (Item 0 (Greenlet 0) [])]) = []
   \<and> len (fst (run_ops Scheduler_init []
       [Add 0 0 (Greenlet 0) [], Add 0 0 (Greenlet 0) [],
        Remove (Item 0 (Greenlet 0) []), Remove (Item 0 (Greenlet 0) []), Pop])) = - 1
   \<and> snd (run_ops Scheduler_init []
       [Add 0 0 (Greenlet 0) [], Add 0 0 (Greenlet 0) [],
        Remove (Item 0 (Greenlet 0) []), Remove (Item 0 (Greenlet 0) []), Pop]) = []"
  by (simp add: scheduler_eval)

text \<open>
  C7, amended: for every orderly sequence of \<^verbatim>\<open>add\<close>, \<^verbatim>\<open>remove\<close> and \<^verbatim>\<open>pop\<close> from a new
  scheduler (every \<^verbatim>\<open>remove\<close> is given an item that is live at that moment, no \<^verbatim>\<open>add\<close> makes
  an item equal to one still in the heap), \<^verbatim>\<open>len\<close> of the scheduler is the number of live
  items, however many cancelled items are still in the heap; a \<^verbatim>\<open>pop\<close> that raises on a heap
  without live items is included.
\<close>

theorem count_is_live_orderly:
  "orderly Scheduler_init [] ops \<Longrightarrow>
     len (fst (run_ops Scheduler_init [] ops)) = int (length (snd (run_ops Scheduler_init [] ops)))"
proof -
  assume "orderly Scheduler_init [] ops"
  with agrees_init have "agrees (fst (run_ops Scheduler_init [] ops)) (snd (run_ops Scheduler_init [] ops))"
    by (rule agrees_run_ops)
  then show ?thesis by (simp add: agrees_def len_def)
qed

theorem count_is_live_orderly_witness:
  "orderly Scheduler_init []
     [Add 0 5 (Greenlet 1) [], Add 0 9 (Greenlet 2) [], Remove (Item (1 / 200) (Greenlet 1) []), Pop, Pop]
   \<and> len (fst (run_ops Scheduler_init []
     [Add 0 5 (Greenlet 1) [], Add 0 9 (Greenlet 2) [], Remove (Item (1 / 200) (Greenlet 1) []), Pop, Pop])) = 0
   \<and> len (fst (run_ops Scheduler_init []
     [Add 0 5 (Greenlet 1) [], Add 0 9 (Greenlet 2) [], Remove (Item (1 / 200) (Greenlet 1) [])])) = 1
   \<and> length (queue (fst (run_ops Scheduler_init []
     [Add 0 5 (Greenlet 1) [], Add 0 9 (Greenlet 2) [], Remove (Item (1 / 200) (Greenlet 1) [])]))) = 2"
  using count_is_live_orderly
     [of "[Add 0 5 (Greenlet 1) [], Add 0 9 (Greenlet 2) [], Remove (Item (1 / 200) (Greenlet 1) []), Pop, Pop]"]
    count_is_live_orderly
     [of "[Add 0 5 (Greenlet 1) [], Add 0 9 (Greenlet 2) [], Remove (Item (1 / 200) (Greenlet 1) [])]"]
  by (simp add: scheduler_eval)

subsection \<open>C8: a pause that is resumed in time\<close>

text \<open>
  C8: when a \<^verbatim>\<open>pause\<close> with a timeout greater than -1 is resumed with a value that is not a
  Timeout while its item is still in the heap (once: its Timeout object is new), \<^verbatim>\<open>pause\<close> returns
  the value, the item is marked as removed and the count goes down by one; and whatever
  is done with the scheduler afterwards, short of pushing that very item again, no \<^verbatim>\<open>pop\<close>
  ever takes the item off the heap, so it fires nothing.
\<close>

theorem resumed_pause_cancels_its_item:
  assumes "tmo > - 1" and "\<not> is_Timeout v"
    and "count_list (queue (scheduled h)) it = 1"
  shows "snd (pause_resume h tmo it v) = Inr v
     \<and> removed (scheduled (fst (pause_resume h tmo it v))) it = Some True
     \<and> len (scheduled (fst (pause_resume h tmo it v))) = len (scheduled h) - 1
     \<and> (\<forall>ops. (\<forall>x \<in> set ops. makes x \<noteq> Some it)
            \<longrightarrow> it \<notin> set (popped_items (scheduled (fst (pause_resume h tmo it v))) ops))"
proof -
  let ?s = "scheduled (fst (pause_resume h tmo it v))"
  from assms(1,2) have s: "?s = remove (scheduled h) it"
    and r: "snd (pause_resume h tmo it v) = Inr v"
    by (simp_all add: pause_resume_def)
  from assms(3) have c: "cancelled it ?s" by (simp add: s cancelled_def remove_def)
  have "\<forall>ops. (\<forall>x \<in> set ops. makes x \<noteq> Some it) \<longrightarrow> it \<notin> set (popped_items ?s ops)"
    using cancelled_never_popped [OF c] by blast
  moreover have "removed ?s it = Some True" "len ?s = len (scheduled h) - 1"
    by (simp_all add: s remove_def len_def)
  ultimately show ?thesis using r by blast
qed

theorem resumed_pause_cancels_its_item_witness:
  "(20::real) > - 1 \<and> \<not> is_Timeout (Obj 5)
   \<and> count_list (queue (scheduled paused_hub)) (Item (1 / 50) (Greenlet 1) [Timeout 7 20]) = 1
   \<and> removed (scheduled (fst (pause_resume paused_hub 20 (Item (1 / 50) (Greenlet 1) [Timeout 7 20]) (Obj 5))))
        (Item (1 / 50) (Greenlet 1) [Timeout 7 20]) = Some True
   \<and> len (scheduled (fst (pause_resume paused_hub 20 (Item (1 / 50) (Greenlet 1) [Timeout 7 20]) (Obj 5)))) = 0
   \<and> popped_items
        (scheduled (fst (pause_resume paused_hub 20 (Item (1 / 50) (Greenlet 1) [Timeout 7 20]) (Obj 5))))
        [Add 0 30 (Greenlet 2) [], Pop, Pop] = [Item (3 / 100) (Greenlet 2) []]"
  using resumed_pause_cancels_its_item
    [where tmo = 20 and v = "Obj 5" and it = "Item (1 / 50) (Greenlet 1) [Timeout 7 20]"
       and h = paused_hub]
  by (simp add: paused_hub_def hub_eval scheduler_eval)

subsection \<open>C9: the dispatcher\<close>

text \<open>
  C9: for the event at the head of any list of events and any state of the hub, an
  event for an fd that is not registered is skipped; a POLLERR event on a registered fd
  closes every Sender of that fd before the rest is dispatched; any other event whose
  mask has a Sender sends True on that Sender, waking the parked recver, if the Sender
  has a parked recver at that moment, and does nothing if it has none. For a list of
  expected events the dispatcher runs to its end, leaves the registrations as they
  were, and every Sender of every fd that had a POLLERR event is closed at the end.
\<close>

theorem dispatch_routes_events:
  "(map_of (registered h) fd = None \<longrightarrow>
      dispatch_events p h ((fd, m) # es) = dispatch_events p h es)
   \<and> (\<forall>masks. map_of (registered h) fd = Some masks \<longrightarrow>
        (\<exists>g. dispatch_events p h ((fd, p) # es) = dispatch_events p g es
              \<and> (\<forall>s \<in> snd ` set masks. pipes g s = Closed)))
   \<and> (\<forall>masks s. map_of (registered h) fd = Some masks \<and> m \<noteq> p \<and> map_of masks m = Some s \<longrightarrow>
        (Sender_ready h s \<longrightarrow>
           (\<exists>t. pipes h s = Recver_waiting t
                \<and> dispatch_events p h ((fd, m) # es)
                    = dispatch_events p (resume (h\<lparr>pipes := (pipes h)(s := Idle)\<rparr>) t [TrueV]) es))
        \<and> (\<not> Sender_ready h s \<longrightarrow> dispatch_events p h ((fd, m) # es) = dispatch_events p h es))
   \<and> (expected p h evs \<longrightarrow>
        (\<exists>h'. dispatch_events p h evs = Dispatched h' \<and> registered h' = registered h
              \<and> (\<forall>fd' masks s. (fd', p) \<in> set evs \<and> map_of (registered h) fd' = Some masks
                     \<and> s \<in> snd ` set masks \<longrightarrow> pipes h' s = Closed)))"
proof (intro conjI allI impI)
  assume "map_of (registered h) fd = None"
  then show "dispatch_events p h ((fd, m) # es) = dispatch_events p h es" by simp
next
  fix masks
  assume r: "map_of (registered h) fd = Some masks"
  let ?g = "fold (\<lambda>sender g. Sender_close g sender) (map snd masks) h"
  have "dispatch_events p h ((fd, p) # es) = dispatch_events p ?g es" using r by simp
  moreover have "\<forall>s \<in> snd ` set masks. pipes ?g s = Closed" by (simp add: close_all_pipes)
  ultimately show "\<exists>g. dispatch_events p h ((fd, p) # es) = dispatch_events p g es
              \<and> (\<forall>s \<in> snd ` set masks. pipes g s = Closed)" by blast
next
  fix masks s
  assume a: "map_of (registered h) fd = Some masks \<and> m \<noteq> p \<and> map_of masks m = Some s"
    and rdy: "Sender_ready h s"
  from Sender_ready_send [OF rdy, of TrueV] obtain t where
    t: "pipes h s = Recver_waiting t"
    and snd: "Sender_send h s TrueV = Some (resume (h\<lparr>pipes := (pipes h)(s := Idle)\<rparr>) t [TrueV])"
    by blast
  with a rdy show "\<exists>t. pipes h s = Recver_waiting t
                \<and> dispatch_events p h ((fd, m) # es)
                    = dispatch_events p (resume (h\<lparr>pipes := (pipes h)(s := Idle)\<rparr>) t [TrueV]) es"
    by simp
next
  fix masks s
  assume "map_of (registered h) fd = Some masks \<and> m \<noteq> p \<and> map_of masks m = Some s"
    and "\<not> Sender_ready h s"
  then show "dispatch_events p h ((fd, m) # es) = dispatch_events p h es" by simp
next
  assume ex: "expected p h evs"
  from dispatch_completes [OF ex] obtain h' where d: "dispatch_events p h evs = Dispatched h'"
    by blast
  from d have "registered h' = registered h" by (rule dispatch_registered)
  moreover have "\<forall>fd' masks s. (fd', p) \<in> set evs \<and> map_of (registered h) fd' = Some masks
                     \<and> s \<in> snd ` set masks \<longrightarrow> pipes h' s = Closed"
    using dispatch_pollerr_closes [OF d] by blast
  ultimately show "\<exists>h'. dispatch_events p h evs = Dispatched h' \<and> registered h' = registered h
              \<and> (\<forall>fd' masks s. (fd', p) \<in> set evs \<and> map_of (registered h) fd' = Some masks
                     \<and> s \<in> snd ` set masks \<longrightarrow> pipes h' s = Closed)"
    using d by blast
qed

theorem dispatch_routes_events_witness:
  "expected 8 polling_hub [(3, 1), (9, 1), (3, 4), (3, 8)]
   \<and> Sender_ready polling_hub 0 \<and> \<not> Sender_ready polling_hub 1
   \<and> map_of (registered polling_hub) 9 = None
   \<and> dispatch_events 8 polling_hub [(9, 1)] = Dispatched polling_hub
   \<and> (\<exists>h'. dispatch_events 8 polling_hub [(3, 1), (9, 1), (3, 4), (3, 8)] = Dispatched h'
         \<and> ready h' = [(Greenlet 5, [TrueV])] \<and> pipes h' 0 = Closed \<and> pipes h' 1 = Closed)"
  using dispatch_routes_events [of polling_hub 3 8 1 "[]" "[(3, 1), (9, 1), (3, 4), (3, 8)]"]
    dispatch_routes_events [of polling_hub 9 8 1 "[]" "[]"]
  by (simp add: polling_hub_def expected_def Sender_ready_def Sender_send_def Sender_close_def hub_eval)

subsection \<open>C10: the sleep that is never reached\<close>



end
